theory Spec2Isabelle
  imports Main "HOL-Library.Word"
begin

section \<open>Data model\<close>

text \<open>
  A Go \<open>[]byte\<close> value. \<open>None\<close> is the nil slice, which is what every slot of
  \<open>make([][]byte, count)\<close> holds until it is assigned.
\<close>

type_synonym bytes = "8 word list option"

text \<open>
  A \<open>data.TransactionHandler\<close> interface value: a pointer to a transaction. The code
  compares handlers with \<open>==\<close>, which is pointer identity; \<open>handle\<close> is the address, and
  the other fields are what the methods return for the transaction at that address
  (a transaction is not changed while it sits in the cache). Equality of the record is
  the \<open>==\<close> of the code. The fields \<open>txSize\<close>, \<open>txGas\<close> and \<open>txFee\<close> carry the
  values of the three cost functions below.
\<close>

record TransactionHandler =
  handle :: nat
  GetNonce :: "64 word"
  GetSndAddr :: string
  txSize :: "64 word"
  txGas :: "64 word"
  txFee :: "64 word"

text \<open>
  Modelled from the spec: the cost functions \<open>estimateTxSize\<close>, \<open>estimateTxGas\<close> and
  \<open>estimateTxFee\<close> are defined in a file that is not among the sources. The spec
  takes them as pure functions of the transaction that return numeric costs; here each
  returns the value (a Go \<open>int64\<close>) that the handler carries for it.
\<close>

definition estimateTxSize :: "TransactionHandler \<Rightarrow> 64 word" where
  "estimateTxSize t = txSize t"

definition estimateTxGas :: "TransactionHandler \<Rightarrow> 64 word" where
  "estimateTxGas t = txGas t"

definition estimateTxFee :: "TransactionHandler \<Rightarrow> 64 word" where
  "estimateTxFee t = txFee t"

record txListForSenderNode =
  txHash :: bytes
  tx :: TransactionHandler

text \<open>
  A \<open>*list.Element\<close> of \<open>container/list\<close>: \<open>eid\<close> is the address of the element,
  \<open>Value\<close> the node stored in it. The value of an element is never reassigned.
\<close>

record Element =
  eid :: nat
  Value :: txListForSenderNode

text \<open>
  The per-sender list. \<open>items\<close> holds the elements of the linked list from front to
  back; \<open>copyBatchIndex\<close> is a pointer to an element (\<open>None\<close> is nil); the three
  totals are \<open>int64\<close> counters, which wrap around. \<open>fresh\<close> is the next unused element
  address. The mutex is not modelled: every operation runs as one step. The fields
  \<open>scoreChunk\<close> and \<open>lastComputedScore\<close> are not touched by any function of the file.
\<close>

record txListForSender =
  items :: "Element list"
  copyBatchIndex :: "Element option"
  totalBytes :: "64 word"
  totalGas :: "64 word"
  totalFee :: "64 word"
  sender :: string
  fresh :: nat

section \<open>The operations of \<open>container/list\<close> that the code uses\<close>

definition list_Front :: "Element list \<Rightarrow> Element option" where
  "list_Front its = (case its of [] \<Rightarrow> None | e # _ \<Rightarrow> Some e)"

definition list_Back :: "Element list \<Rightarrow> Element option" where
  "list_Back its = (if its = [] then None else Some (last its))"

text \<open>
  \<open>e.Next()\<close> is nil when \<open>e\<close> is the last element and also when \<open>e\<close> has been
  removed from the list (its \<open>list\<close> field is nil then); likewise \<open>e.Prev()\<close>.
\<close>

definition list_Next :: "Element list \<Rightarrow> Element \<Rightarrow> Element option" where
  "list_Next its e =
     (case dropWhile (\<lambda>x. eid x \<noteq> eid e) its of
        _ # y # _ \<Rightarrow> Some y
      | _ \<Rightarrow> None)"

definition list_Prev :: "Element list \<Rightarrow> Element \<Rightarrow> Element option" where
  "list_Prev its e =
     (let ahead = takeWhile (\<lambda>x. eid x \<noteq> eid e) its
      in if ahead = [] \<or> length ahead = length its then None
         else Some (last ahead))"

definition list_PushBack :: "Element \<Rightarrow> Element list \<Rightarrow> Element list" where
  "list_PushBack new its = its @ [new]"

text \<open>\<open>InsertBefore\<close> does nothing when the mark is not an element of the list.\<close>

definition list_InsertBefore :: "Element \<Rightarrow> Element \<Rightarrow> Element list \<Rightarrow> Element list" where
  "list_InsertBefore new mark its =
     (if eid mark \<in> eid ` set its
      then takeWhile (\<lambda>x. eid x \<noteq> eid mark) its @ new # dropWhile (\<lambda>x. eid x \<noteq> eid mark) its
      else its)"

definition list_Remove :: "Element \<Rightarrow> Element list \<Rightarrow> Element list" where
  "list_Remove e its = filter (\<lambda>x. eid x \<noteq> eid e) its"

section \<open>The per-sender list\<close>

definition newTxListForSender :: "string \<Rightarrow> txListForSender" where
  "newTxListForSender s =
     \<lparr>items = [], copyBatchIndex = None, totalBytes = 0, totalGas = 0, totalFee = 0,
      sender = s, fresh = 0\<rparr>"

fun findTxWithLargerNonce :: "Element list \<Rightarrow> 64 word \<Rightarrow> Element option" where
  "findTxWithLargerNonce [] nonce = None"
| "findTxWithLargerNonce (element # rest) nonce =
     (if GetNonce (tx (Value element)) > nonce then Some element
      else findTxWithLargerNonce rest nonce)"

definition onAddedTransaction :: "TransactionHandler \<Rightarrow> txListForSender \<Rightarrow> txListForSender" where
  "onAddedTransaction t l =
     l\<lparr>totalBytes := totalBytes l + estimateTxSize t,
       totalGas := totalGas l + estimateTxGas t,
       totalFee := totalFee l + estimateTxFee t\<rparr>"

definition AddTx :: "bytes \<Rightarrow> TransactionHandler \<Rightarrow> txListForSender \<Rightarrow> txListForSender" where
  "AddTx h t l =
     (let nonce = GetNonce t;
          mark = findTxWithLargerNonce (items l) nonce;
          newNode = \<lparr>txHash = h, tx = t\<rparr>;
          new = \<lparr>eid = fresh l, Value = newNode\<rparr>;
          l1 = l\<lparr>fresh := Suc (fresh l)\<rparr>;
          l2 = (case mark of
                  None \<Rightarrow> l1\<lparr>items := list_PushBack new (items l1)\<rparr>
                | Some m \<Rightarrow> l1\<lparr>items := list_InsertBefore new m (items l1)\<rparr>)
      in onAddedTransaction t l2)"

fun findListElementWithTx :: "Element list \<Rightarrow> TransactionHandler \<Rightarrow> Element option" where
  "findListElementWithTx [] txToFind = None"
| "findListElementWithTx (element # rest) txToFind =
     (if tx (Value element) = txToFind then Some element
      else if GetNonce (tx (Value element)) > GetNonce txToFind then None
      else findListElementWithTx rest txToFind)"

text \<open>
  As in the source, the fee of the removed transaction is subtracted from \<open>totalGas\<close>
  (second update of \<open>totalGas\<close>), and \<open>totalFee\<close> is left as it is.
\<close>

definition onRemovedListElement :: "Element \<Rightarrow> txListForSender \<Rightarrow> txListForSender" where
  "onRemovedListElement element l =
     (let v = Value element;
          l1 = l\<lparr>totalBytes := totalBytes l - estimateTxSize (tx v)\<rparr>;
          l2 = l1\<lparr>totalGas := totalGas l1 - estimateTxGas (tx v)\<rparr>
      in l2\<lparr>totalGas := totalGas l2 - estimateTxFee (tx v)\<rparr>)"

definition RemoveTx :: "TransactionHandler \<Rightarrow> txListForSender \<Rightarrow> bool \<times> txListForSender" where
  "RemoveTx t l =
     (case findListElementWithTx (items l) t of
        None \<Rightarrow> (False, l)
      | Some marker \<Rightarrow>
          (True, onRemovedListElement marker (l\<lparr>items := list_Remove marker (items l)\<rparr>)))"

text \<open>
  The loop of \<open>RemoveHighNonceTxs\<close>: \<open>element\<close> walks from the back while
  \<open>count > index\<close>. \<open>index\<close> and \<open>count\<close> are \<open>uint32\<close>.
\<close>

function RemoveHighNonceTxs_loop ::
  "32 word \<Rightarrow> 32 word \<Rightarrow> Element option \<Rightarrow> bytes list \<Rightarrow> txListForSender
     \<Rightarrow> bytes list \<times> txListForSender" where
  "RemoveHighNonceTxs_loop count index element removedTxHashes l =
     (case element of
        None \<Rightarrow> (removedTxHashes, l)
      | Some e \<Rightarrow>
          if \<not> count > index then (removedTxHashes, l)
          else
            let previous = list_Prev (items l) e;
                l1 = l\<lparr>items := list_Remove e (items l)\<rparr>;
                l2 = onRemovedListElement e l1;
                v = Value e;
                removedTxHashes' = removedTxHashes[unat index := txHash v]
            in RemoveHighNonceTxs_loop count (index + 1) previous removedTxHashes' l2)"
  by pat_completeness auto
termination
proof (relation "measure (\<lambda>(count, index, element, removedTxHashes, l). unat count - unat index)")
  show "wf (measure (\<lambda>(count, index, element, removedTxHashes, l). unat count - unat index))"
    by simp
next
  fix count index :: "32 word"
  assume "\<not> \<not> index < count"
  then have lt: "index < count" by simp
  have "index + 1 \<noteq> 0"
  proof
    assume "index + 1 = 0"
    then have "index = - 1" by (simp add: eq_neg_iff_add_eq_0)
    with lt show False by simp
  qed
  then have "unat (index + 1) = Suc (unat index)"
    by (simp add: unatSuc add.commute)
  with lt have "unat count - unat (index + 1) < unat count - unat index"
    by (simp add: word_less_nat_alt)
  then show "\<And>element x2 removedTxHashes l x xa xb xc xd.
       ((count, index + 1, x, xd, xb), count, index, element, removedTxHashes, l)
       \<in> measure (\<lambda>(count, index, element, removedTxHashes, l). unat count - unat index)"
    by simp
qed

definition RemoveHighNonceTxs :: "32 word \<Rightarrow> txListForSender \<Rightarrow> bytes list \<times> txListForSender" where
  "RemoveHighNonceTxs count l =
     RemoveHighNonceTxs_loop count 0 (list_Back (items l)) (replicate (unat count) None) l"

definition countTx :: "txListForSender \<Rightarrow> int" where
  "countTx l = int (length (items l))"

definition IsEmpty :: "txListForSender \<Rightarrow> bool" where
  "IsEmpty l = (countTx l = 0)"

text \<open>
  The loop of \<open>copyBatchTo\<close>. \<open>None\<close> is a run-time panic: an index outside
  \<open>destination\<close> or \<open>destinationHashes\<close>. \<open>batchSize\<close> is a Go \<open>int\<close> and may be
  negative, in which case \<open>copied == batchSize\<close> never holds.
\<close>

function copyBatchTo_loop ::
  "Element list \<Rightarrow> int \<Rightarrow> Element option \<Rightarrow> nat \<Rightarrow> TransactionHandler list \<Rightarrow> bytes list
     \<Rightarrow> (Element option \<times> nat \<times> TransactionHandler list \<times> bytes list) option" where
  "copyBatchTo_loop its batchSize element copied destination destinationHashes =
     (case element of
        None \<Rightarrow> Some (element, copied, destination, destinationHashes)
      | Some e \<Rightarrow>
          if int copied = batchSize \<or> copied = length destination
          then Some (element, copied, destination, destinationHashes)
          else if length destination \<le> copied \<or> length destinationHashes \<le> copied then None
          else
            let v = Value e
            in copyBatchTo_loop its batchSize (list_Next its e) (Suc copied)
                 (destination[copied := tx v]) (destinationHashes[copied := txHash v]))"
  by pat_completeness auto
termination
  by (relation "measure (\<lambda>(its, batchSize, element, copied, destination, destinationHashes).
        length destination - copied)") auto

text \<open>
  \<open>copyBatchTo\<close> returns the number of copied entries; the model returns with it the two
  buffers as the call leaves them and the list with its new cursor.
\<close>

definition copyBatchTo ::
  "bool \<Rightarrow> TransactionHandler list \<Rightarrow> bytes list \<Rightarrow> int \<Rightarrow> txListForSender
     \<Rightarrow> (nat \<times> TransactionHandler list \<times> bytes list \<times> txListForSender) option" where
  "copyBatchTo withReset destination destinationHashes batchSize l =
     (let l1 = (if withReset then l\<lparr>copyBatchIndex := list_Front (items l)\<rparr> else l);
          element = copyBatchIndex l1
      in if element = None then Some (0, destination, destinationHashes, l1)
         else
           (case copyBatchTo_loop (items l1) batchSize element 0 destination destinationHashes of
              None \<Rightarrow> None
            | Some (element', copied, destination', destinationHashes') \<Rightarrow>
                Some (copied, destination', destinationHashes',
                      l1\<lparr>copyBatchIndex := element'\<rparr>)))"

section \<open>Sequences of operations on one list\<close>

datatype listOp =
    OpAddTx bytes TransactionHandler
  | OpRemoveTx TransactionHandler
  | OpRemoveHighNonceTxs "32 word"

fun applyOp :: "listOp \<Rightarrow> txListForSender \<Rightarrow> txListForSender" where
  "applyOp (OpAddTx h t) l = AddTx h t l"
| "applyOp (OpRemoveTx t) l = snd (RemoveTx t l)"
| "applyOp (OpRemoveHighNonceTxs count) l = snd (RemoveHighNonceTxs count l)"

fun runOps :: "listOp list \<Rightarrow> txListForSender \<Rightarrow> txListForSender" where
  "runOps [] l = l"
| "runOps (operation # rest) l = runOps rest (applyOp operation l)"

text \<open>The nonces of the stored transactions, front to back, and the sorted invariant.\<close>

definition nonces :: "Element list \<Rightarrow> 64 word list" where
  "nonces its = map (\<lambda>e. GetNonce (tx (Value e))) its"

definition sortedByNonce :: "txListForSender \<Rightarrow> bool" where
  "sortedByNonce l = sorted (nonces (items l))"

text \<open>
  Heap well-formedness of the linked list: no element occurs twice, and every element
  address in use is below the next free one.
\<close>

definition wellFormed :: "txListForSender \<Rightarrow> bool" where
  "wellFormed l = (distinct (map eid (items l)) \<and> list_all (\<lambda>e. eid e < fresh l) (items l))"

text \<open>The exact sums over the transactions that are present.\<close>

definition sumBytes :: "txListForSender \<Rightarrow> 64 word" where
  "sumBytes l = sum_list (map (\<lambda>e. estimateTxSize (tx (Value e))) (items l))"

definition sumGas :: "txListForSender \<Rightarrow> 64 word" where
  "sumGas l = sum_list (map (\<lambda>e. estimateTxGas (tx (Value e))) (items l))"

definition sumFee :: "txListForSender \<Rightarrow> 64 word" where
  "sumFee l = sum_list (map (\<lambda>e. estimateTxFee (tx (Value e))) (items l))"

definition totalsExact :: "txListForSender \<Rightarrow> bool" where
  "totalsExact l = (totalBytes l = sumBytes l \<and> totalGas l = sumGas l \<and> totalFee l = sumFee l)"

section \<open>A selection sweep with the batch cursor\<close>

text \<open>
  The caller's side of \<open>copyBatchTo\<close>: a first call with \<open>withReset = true\<close>, then calls
  with \<open>withReset = false\<close>, the list left alone in between. Each call comes with its own
  buffers and batch size; the sweep collects, per call, the entries the call reports as
  copied (the first \<open>copied\<close> slots of both buffers).
\<close>

type_synonym copyCall = "TransactionHandler list \<times> bytes list \<times> int"

fun sweep ::
  "bool \<Rightarrow> copyCall list \<Rightarrow> txListForSender
     \<Rightarrow> ((TransactionHandler \<times> bytes) list list \<times> txListForSender) option" where
  "sweep withReset [] l = Some ([], l)"
| "sweep withReset ((destination, destinationHashes, batchSize) # calls) l =
     (case copyBatchTo withReset destination destinationHashes batchSize l of
        None \<Rightarrow> None
      | Some (copied, destination', destinationHashes', l') \<Rightarrow>
          (case sweep False calls l' of
             None \<Rightarrow> None
           | Some (chunks, l'') \<Rightarrow>
               Some (zip (take copied destination') (take copied destinationHashes') # chunks, l'')))"

text \<open>The stored entries in list order, as a sweep hands them out.\<close>

definition entries :: "txListForSender \<Rightarrow> (TransactionHandler \<times> bytes) list" where
  "entries l = map (\<lambda>e. (tx (Value e), txHash (Value e))) (items l)"

text \<open>
  What the specification says of a sweep: each call takes
  \<open>min(batchSize, len(destBuffer), remaining)\<close> entries from where the previous one stopped.
\<close>

definition batchLimit :: "copyCall \<Rightarrow> nat" where
  "batchLimit c = (case c of (destination, destinationHashes, batchSize) \<Rightarrow>
     min (nat batchSize) (length destination))"

fun batches :: "'a list \<Rightarrow> nat list \<Rightarrow> 'a list list" where
  "batches xs [] = []"
| "batches xs (k # ks) = take k xs # batches (drop k xs) ks"

definition validCall :: "copyCall \<Rightarrow> bool" where
  "validCall c = (case c of (destination, destinationHashes, batchSize) \<Rightarrow>
     0 \<le> batchSize \<and> length destination \<le> length destinationHashes)"

section \<open>The sender registry\<close>

text \<open>
  Modelled from the spec: the declaration of \<open>WrappedTransaction\<close> is not among the
  sources. The spec's transaction wrapper holds the transaction hash and a handle to the
  transaction; these are the two fields the registry and the list read.
\<close>

record WrappedTransaction =
  Tx :: TransactionHandler
  TxHash :: bytes

text \<open>
  Modelled from the spec: \<open>maps.BucketSortedMap\<close>, the score bucket index, is not part
  of the sources at hand. The spec describes it as an associative structure from sender
  identifier to entry: \<open>Set\<close> inserts or overwrites the entry under its identifier,
  \<open>Get\<close>, \<open>Has\<close> and \<open>Remove\<close> work by identifier, \<open>Clear\<close> removes all entries.
  The buckets only order the snapshots and are left out. The identifier of a per-sender
  list is its \<open>sender\<close>. The index holds pointers to the lists; the model holds each
  list's current state under its identifier.
\<close>

type_synonym BucketSortedMap = "string \<rightharpoonup> txListForSender"

definition bsm_Set :: "txListForSender \<Rightarrow> BucketSortedMap \<Rightarrow> BucketSortedMap" where
  "bsm_Set item m = m(sender item \<mapsto> item)"

definition bsm_Get :: "string \<Rightarrow> BucketSortedMap \<Rightarrow> txListForSender option" where
  "bsm_Get key m = m key"

definition bsm_Has :: "string \<Rightarrow> BucketSortedMap \<Rightarrow> bool" where
  "bsm_Has key m = (m key \<noteq> None)"

definition bsm_Remove :: "string \<Rightarrow> BucketSortedMap \<Rightarrow> BucketSortedMap" where
  "bsm_Remove key m = m(key := None)"

definition bsm_Clear :: "BucketSortedMap \<Rightarrow> BucketSortedMap" where
  "bsm_Clear m = Map.empty"

text \<open>
  The registry: the index and the live-sender counter (an \<open>int64\<close>). The cache
  configuration is only handed on to the lists and is left out, as is the mutex: the
  operations run one after the other.
\<close>

record txListBySenderMap =
  backingMap :: BucketSortedMap
  counter :: "64 word"

definition newTxListBySenderMap :: txListBySenderMap where
  "newTxListBySenderMap = \<lparr>backingMap = Map.empty, counter = 0\<rparr>"

definition getListForSender :: "txListBySenderMap \<Rightarrow> string \<Rightarrow> txListForSender option" where
  "getListForSender txMap s = bsm_Get s (backingMap txMap)"

definition addSender :: "string \<Rightarrow> txListBySenderMap \<Rightarrow> txListForSender \<times> txListBySenderMap" where
  "addSender s txMap =
     (let listForSender = newTxListForSender s;
          txMap1 = txMap\<lparr>backingMap := bsm_Set listForSender (backingMap txMap)\<rparr>;
          txMap2 = txMap1\<lparr>counter := counter txMap1 + 1\<rparr>
      in (listForSender, txMap2))"

text \<open>Run alone, the second look-up of the double-checked locking sees what the first saw.\<close>

definition getOrAddListForSender ::
  "string \<Rightarrow> txListBySenderMap \<Rightarrow> txListForSender \<times> txListBySenderMap" where
  "getOrAddListForSender s txMap =
     (case getListForSender txMap s of
        Some listForSender \<Rightarrow> (listForSender, txMap)
      | None \<Rightarrow>
          (case getListForSender txMap s of
             Some listForSender \<Rightarrow> (listForSender, txMap)
           | None \<Rightarrow> addSender s txMap))"

text \<open>
  The registry calls the list through a pointer, so what the list does is seen through
  the index: \<open>storeList\<close> writes the list's new state back under the identifier it was
  found with. The registry file calls \<open>AddTx\<close> with the wrapped transaction and passes
  its result on; with the list of this development the call is \<open>AddTx(hash, tx)\<close> and
  has no result.
\<close>

definition storeList :: "string \<Rightarrow> txListForSender \<Rightarrow> txListBySenderMap \<Rightarrow> txListBySenderMap" where
  "storeList s l txMap = txMap\<lparr>backingMap := (backingMap txMap)(s \<mapsto> l)\<rparr>"

definition addTx :: "WrappedTransaction \<Rightarrow> txListBySenderMap \<Rightarrow> txListBySenderMap" where
  "addTx w txMap =
     (let s = GetSndAddr (Tx w);
          (listForSender, txMap1) = getOrAddListForSender s txMap
      in storeList s (AddTx (TxHash w) (Tx w) listForSender) txMap1)"

definition removeSender :: "string \<Rightarrow> txListBySenderMap \<Rightarrow> bool \<times> txListBySenderMap" where
  "removeSender s txMap =
     (if \<not> bsm_Has s (backingMap txMap) then (False, txMap)
      else
        let txMap1 = txMap\<lparr>backingMap := bsm_Remove s (backingMap txMap)\<rparr>
        in (True, txMap1\<lparr>counter := counter txMap1 - 1\<rparr>))"

definition removeTx :: "WrappedTransaction \<Rightarrow> txListBySenderMap \<Rightarrow> bool \<times> txListBySenderMap" where
  "removeTx w txMap =
     (let s = GetSndAddr (Tx w)
      in case getListForSender txMap s of
           None \<Rightarrow> (False, txMap)
         | Some listForSender \<Rightarrow>
             let (isFound, listForSender') = RemoveTx (Tx w) listForSender;
                 txMap1 = storeList s listForSender' txMap;
                 isEmpty = IsEmpty listForSender'
             in if isEmpty then (isFound, snd (removeSender s txMap1))
                else (isFound, txMap1))"

fun RemoveSendersBulk_loop ::
  "string list \<Rightarrow> 32 word \<Rightarrow> txListBySenderMap \<Rightarrow> 32 word \<times> txListBySenderMap" where
  "RemoveSendersBulk_loop [] numRemoved txMap = (numRemoved, txMap)"
| "RemoveSendersBulk_loop (senderKey # senders) numRemoved txMap =
     (case removeSender senderKey txMap of
        (True, txMap') \<Rightarrow> RemoveSendersBulk_loop senders (numRemoved + 1) txMap'
      | (False, txMap') \<Rightarrow> RemoveSendersBulk_loop senders numRemoved txMap')"

definition RemoveSendersBulk :: "string list \<Rightarrow> txListBySenderMap \<Rightarrow> 32 word \<times> txListBySenderMap" where
  "RemoveSendersBulk senders txMap = RemoveSendersBulk_loop senders 0 txMap"

definition clear :: "txListBySenderMap \<Rightarrow> txListBySenderMap" where
  "clear txMap = (txMap\<lparr>backingMap := bsm_Clear (backingMap txMap)\<rparr>)\<lparr>counter := 0\<rparr>"

datatype registryOp =
    RegAddTx WrappedTransaction
  | RegRemoveTx WrappedTransaction
  | RegRemoveSendersBulk "string list"
  | RegClear

fun applyRegistryOp :: "registryOp \<Rightarrow> txListBySenderMap \<Rightarrow> txListBySenderMap" where
  "applyRegistryOp (RegAddTx w) txMap = addTx w txMap"
| "applyRegistryOp (RegRemoveTx w) txMap = snd (removeTx w txMap)"
| "applyRegistryOp (RegRemoveSendersBulk senders) txMap = snd (RemoveSendersBulk senders txMap)"
| "applyRegistryOp RegClear txMap = clear txMap"

fun runRegistryOps :: "registryOp list \<Rightarrow> txListBySenderMap \<Rightarrow> txListBySenderMap" where
  "runRegistryOps [] txMap = txMap"
| "runRegistryOps (operation # rest) txMap = runRegistryOps rest (applyRegistryOp operation txMap)"

text \<open>The senders reachable through the index, and the counter invariant.\<close>

definition liveSenders :: "txListBySenderMap \<Rightarrow> string set" where
  "liveSenders txMap = dom (backingMap txMap)"

definition counterExact :: "txListBySenderMap \<Rightarrow> bool" where
  "counterExact txMap =
     (finite (liveSenders txMap) \<and> counter txMap = of_nat (card (liveSenders txMap)))"

declare RemoveHighNonceTxs_loop.simps [simp del]

declare copyBatchTo_loop.simps [simp del]

section \<open>Sample data\<close>

text \<open>The hashes of a run of elements, in order.\<close>

definition hashes :: "Element list \<Rightarrow> bytes list" where
  "hashes its = map (\<lambda>e. txHash (Value e)) its"

text \<open>
  Concrete transactions and lists on which the statements below are evaluated. All
  sample transactions cost 100 bytes, 50 gas and a fee of 7.
\<close>

definition sampleTx :: "nat \<Rightarrow> 64 word \<Rightarrow> TransactionHandler" where
  "sampleTx p n =
     \<lparr>handle = p, GetNonce = n, GetSndAddr = ''alice'', txSize = 100, txGas = 50, txFee = 7\<rparr>"

definition sampleList :: txListForSender where
  "sampleList =
     runOps [OpAddTx (Some [3]) (sampleTx 0 3), OpAddTx (Some [1]) (sampleTx 1 1),
             OpAddTx (Some [2]) (sampleTx 2 2)] (newTxListForSender ''alice'')"

definition addedThenRemoved :: txListForSender where
  "addedThenRemoved =
     runOps [OpAddTx (Some [1]) (sampleTx 0 1), OpRemoveTx (sampleTx 0 1)]
       (newTxListForSender ''alice'')"

definition singleList :: txListForSender where
  "singleList = runOps [OpAddTx (Some [1]) (sampleTx 0 1)] (newTxListForSender ''alice'')"

definition fiveList :: txListForSender where
  "fiveList = runOps [OpAddTx (Some [1]) (sampleTx 0 5)] (newTxListForSender ''alice'')"

definition sameNonceList :: txListForSender where
  "sameNonceList =
     runOps [OpAddTx (Some [1]) (sampleTx 0 5), OpAddTx (Some [2]) (sampleTx 1 5)]
       (newTxListForSender ''alice'')"

definition sampleCalls :: "copyCall list" where
  "sampleCalls =
     [(replicate 2 (sampleTx 9 0), replicate 2 None, 5),
      (replicate 4 (sampleTx 9 0), replicate 4 None, 2)]"

text \<open>
  A call whose hash buffer is shorter than its transaction buffer, and a call with a
  negative batch size.
\<close>

definition shortHashCalls :: "copyCall list" where
  "shortHashCalls = [(replicate 2 (sampleTx 9 0), [], 2)]"

definition negativeBatchCalls :: "copyCall list" where
  "negativeBatchCalls = [(replicate 2 (sampleTx 9 0), replicate 2 None, - 1)]"

text \<open>
  The handlers of a run of elements, in order; and two handlers to transactions of the
  same content, whatever their addresses. The hash of a transaction is computed from
  its content, so transactions of the same content have the same hash.
\<close>

definition handlers :: "Element list \<Rightarrow> TransactionHandler list" where
  "handlers its = map (\<lambda>e. tx (Value e)) its"

definition sameContent :: "TransactionHandler \<Rightarrow> TransactionHandler \<Rightarrow> bool" where
  "sameContent a b =
     (GetNonce a = GetNonce b \<and> GetSndAddr a = GetSndAddr b \<and>
      txSize a = txSize b \<and> txGas a = txGas b \<and> txFee a = txFee b)"

definition sampleWrapped :: "string \<Rightarrow> nat \<Rightarrow> 64 word \<Rightarrow> WrappedTransaction" where
  "sampleWrapped s p n = \<lparr>Tx = (sampleTx p n)\<lparr>GetSndAddr := s\<rparr>, TxHash = Some [of_nat p]\<rparr>"

definition sampleRegistry :: txListBySenderMap where
  "sampleRegistry =
     runRegistryOps
       [RegAddTx (sampleWrapped ''alice'' 0 1), RegAddTx (sampleWrapped ''bob'' 1 1),
        RegAddTx (sampleWrapped ''alice'' 2 2), RegRemoveTx (sampleWrapped ''bob'' 1 1),
        RegAddTx (sampleWrapped ''carol'' 3 7), RegRemoveSendersBulk [''dave'', ''carol'']]
       newTxListBySenderMap"

section \<open>The linked list, element by element\<close>

text \<open>
  In a list without repeated element addresses, an element splits the list into what
  is before and what is after it, and the pointer operations act at that place.
\<close>

lemma split_at_element:
  assumes "distinct (map eid (pre @ e # post))"
  shows "takeWhile (\<lambda>x. eid x \<noteq> eid e) (pre @ e # post) = pre"
    and "dropWhile (\<lambda>x. eid x \<noteq> eid e) (pre @ e # post) = e # post"
proof -
  have ne: "\<And>x. x \<in> set pre \<Longrightarrow> eid x \<noteq> eid e"
    using assms by (auto simp: image_iff)
  show "takeWhile (\<lambda>x. eid x \<noteq> eid e) (pre @ e # post) = pre"
    using ne by (simp add: takeWhile_append2)
  show "dropWhile (\<lambda>x. eid x \<noteq> eid e) (pre @ e # post) = e # post"
    using ne by (simp add: dropWhile_append2)
qed

lemma list_Remove_at:
  assumes "distinct (map eid (pre @ e # post))"
  shows "list_Remove e (pre @ e # post) = pre @ post"
proof -
  have "\<And>x. x \<in> set pre \<union> set post \<Longrightarrow> eid x \<noteq> eid e"
    using assms by (auto simp: image_iff)
  then show ?thesis
    by (simp add: list_Remove_def filter_id_conv)
qed

lemma list_Next_at:
  assumes "distinct (map eid (pre @ e # post))"
  shows "list_Next (pre @ e # post) e = list_Front post"
  using split_at_element(2) [OF assms]
  by (simp add: list_Next_def list_Front_def split: list.splits)

lemma list_Prev_at:
  assumes "distinct (map eid (pre @ e # post))"
  shows "list_Prev (pre @ e # post) e = list_Back pre"
  using split_at_element(1) [OF assms]
  by (simp add: list_Prev_def list_Back_def)

lemma list_InsertBefore_at:
  assumes "distinct (map eid (pre @ m # post))"
  shows "list_InsertBefore new m (pre @ m # post) = pre @ new # m # post"
  using split_at_element [OF assms]
  by (simp add: list_InsertBefore_def)

lemma list_Back_snoc: "list_Back (xs @ [x]) = Some x"
  by (simp add: list_Back_def)

lemma list_Front_None: "list_Front xs = None \<longleftrightarrow> xs = []"
  by (simp add: list_Front_def split: list.splits)

section \<open>Insertion\<close>

lemma findTxWithLargerNonce_split:
  "findTxWithLargerNonce its n = list_Front (dropWhile (\<lambda>e. GetNonce (tx (Value e)) \<le> n) its)"
  by (induction its) (auto simp: list_Front_def)

lemma AddTx_items:
  assumes "distinct (map eid (items l))"
  shows "items (AddTx h t l) =
           takeWhile (\<lambda>e. GetNonce (tx (Value e)) \<le> GetNonce t) (items l)
           @ \<lparr>eid = fresh l, Value = \<lparr>txHash = h, tx = t\<rparr>\<rparr>
           # dropWhile (\<lambda>e. GetNonce (tx (Value e)) \<le> GetNonce t) (items l)"
proof (cases "dropWhile (\<lambda>e. GetNonce (tx (Value e)) \<le> GetNonce t) (items l)")
  case Nil
  then have tw: "takeWhile (\<lambda>e. GetNonce (tx (Value e)) \<le> GetNonce t) (items l) = items l"
    by (metis append_Nil2 takeWhile_dropWhile_id)
  have "findTxWithLargerNonce (items l) (GetNonce t) = None"
    using Nil by (simp only: findTxWithLargerNonce_split list_Front_def list.case)
  then have "items (AddTx h t l) = items l @ [\<lparr>eid = fresh l, Value = \<lparr>txHash = h, tx = t\<rparr>\<rparr>]"
    by (simp add: AddTx_def list_PushBack_def onAddedTransaction_def Let_def)
  then show ?thesis
    by (simp only: tw Nil append_Cons append_Nil)
next
  case (Cons m post)
  let ?pre = "takeWhile (\<lambda>e. GetNonce (tx (Value e)) \<le> GetNonce t) (items l)"
  have its: "items l = ?pre @ m # post"
    using Cons by (metis takeWhile_dropWhile_id)
  have "distinct (map eid (?pre @ m # post))"
    using assms its by simp
  then have "list_InsertBefore \<lparr>eid = fresh l, Value = \<lparr>txHash = h, tx = t\<rparr>\<rparr> m (?pre @ m # post)
      = ?pre @ \<lparr>eid = fresh l, Value = \<lparr>txHash = h, tx = t\<rparr>\<rparr> # m # post"
    by (rule list_InsertBefore_at)
  then have "list_InsertBefore \<lparr>eid = fresh l, Value = \<lparr>txHash = h, tx = t\<rparr>\<rparr> m (items l)
      = ?pre @ \<lparr>eid = fresh l, Value = \<lparr>txHash = h, tx = t\<rparr>\<rparr> # m # post"
    using its by simp
  moreover have "findTxWithLargerNonce (items l) (GetNonce t) = Some m"
    using Cons by (simp only: findTxWithLargerNonce_split list_Front_def list.case)
  ultimately have "items (AddTx h t l) = ?pre @ \<lparr>eid = fresh l, Value = \<lparr>txHash = h, tx = t\<rparr>\<rparr> # m # post"
    by (simp add: AddTx_def onAddedTransaction_def Let_def)
  then show ?thesis
    by (simp only: Cons)
qed

lemma AddTx_items_split:
  assumes "distinct (map eid (items l))"
  obtains pre post where "items l = pre @ post"
    and "items (AddTx h t l) = pre @ \<lparr>eid = fresh l, Value = \<lparr>txHash = h, tx = t\<rparr>\<rparr> # post"
    and "pre = takeWhile (\<lambda>e. GetNonce (tx (Value e)) \<le> GetNonce t) (items l)"
    and "post = dropWhile (\<lambda>e. GetNonce (tx (Value e)) \<le> GetNonce t) (items l)"
  using AddTx_items [OF assms, of h t] by (metis takeWhile_dropWhile_id)

lemma sorted_insert_at:
  fixes f :: "'a \<Rightarrow> 'b::linorder"
  assumes "sorted (map f xs)"
  shows "sorted (map f (takeWhile (\<lambda>x. f x \<le> n) xs) @ n # map f (dropWhile (\<lambda>x. f x \<le> n) xs))"
  using assms by (induction xs) (auto dest: set_takeWhileD set_dropWhileD)

lemma fresh_AddTx: "fresh (AddTx h t l) = Suc (fresh l)"
  by (simp add: AddTx_def onAddedTransaction_def Let_def split: option.splits)

lemma copyBatchIndex_AddTx: "copyBatchIndex (AddTx h t l) = copyBatchIndex l"
  by (simp add: AddTx_def onAddedTransaction_def Let_def split: option.splits)

lemma wellFormed_new: "wellFormed (newTxListForSender s)"
  by (simp add: wellFormed_def newTxListForSender_def)

lemma sorted_new: "sortedByNonce (newTxListForSender s)"
  by (simp add: sortedByNonce_def nonces_def newTxListForSender_def)

lemma wellFormed_AddTx:
  assumes "wellFormed l"
  shows "wellFormed (AddTx h t l)"
proof -
  have d: "distinct (map eid (items l))" and b: "\<forall>e\<in>set (items l). eid e < fresh l"
    using assms by (simp_all add: wellFormed_def list_all_iff)
  obtain pre post where its: "items l = pre @ post"
    and its': "items (AddTx h t l) = pre @ \<lparr>eid = fresh l, Value = \<lparr>txHash = h, tx = t\<rparr>\<rparr> # post"
    using d by (rule AddTx_items_split)
  have nin: "fresh l \<notin> eid ` set pre" "fresh l \<notin> eid ` set post"
    using b its by auto
  have "distinct (map eid (items (AddTx h t l)))"
    using d nin unfolding its its' by simp
  moreover have "\<forall>e\<in>set (items (AddTx h t l)). eid e < fresh (AddTx h t l)"
    using b unfolding its its' fresh_AddTx by (auto simp: less_Suc_eq)
  ultimately show ?thesis
    by (simp add: wellFormed_def list_all_iff)
qed

lemma sorted_AddTx:
  assumes "wellFormed l" and "sortedByNonce l"
  shows "sortedByNonce (AddTx h t l)"
proof -
  have d: "distinct (map eid (items l))"
    using assms(1) by (simp add: wellFormed_def)
  have "sorted (nonces (items l))"
    using assms(2) by (simp add: sortedByNonce_def)
  then have "sorted (map (\<lambda>e. GetNonce (tx (Value e))) (items l))"
    by (simp add: nonces_def)
  then have "sorted (map (\<lambda>e. GetNonce (tx (Value e)))
                 (takeWhile (\<lambda>e. GetNonce (tx (Value e)) \<le> GetNonce t) (items l))
               @ GetNonce t
               # map (\<lambda>e. GetNonce (tx (Value e)))
                   (dropWhile (\<lambda>e. GetNonce (tx (Value e)) \<le> GetNonce t) (items l)))"
    by (rule sorted_insert_at)
  then show ?thesis
    by (simp add: sortedByNonce_def nonces_def AddTx_items [OF d])
qed

lemma totalsExact_AddTx:
  assumes "wellFormed l" and "totalsExact l"
  shows "totalsExact (AddTx h t l)"
proof -
  have d: "distinct (map eid (items l))" using assms(1) by (simp add: wellFormed_def)
  obtain pre post where its: "items l = pre @ post"
    and its': "items (AddTx h t l) = pre @ \<lparr>eid = fresh l, Value = \<lparr>txHash = h, tx = t\<rparr>\<rparr> # post"
    using d by (rule AddTx_items_split)
  have tot: "totalBytes (AddTx h t l) = totalBytes l + estimateTxSize t"
    "totalGas (AddTx h t l) = totalGas l + estimateTxGas t"
    "totalFee (AddTx h t l) = totalFee l + estimateTxFee t"
    by (simp_all add: AddTx_def onAddedTransaction_def Let_def split: option.splits)
  show ?thesis
    using assms(2) unfolding totalsExact_def sumBytes_def sumGas_def sumFee_def tot its its'
    by simp
qed

section \<open>Removal of one transaction\<close>

lemma findListElementWithTx_Some:
  "findListElementWithTx its t = Some e \<Longrightarrow> e \<in> set its \<and> tx (Value e) = t"
  by (induction its) (auto split: if_splits)

lemma findListElementWithTx_sorted:
  assumes "sorted (nonces its)"
  shows "(findListElementWithTx its t = None) = (\<forall>e\<in>set its. tx (Value e) \<noteq> t)"
  using assms
proof (induction its)
  case Nil
  then show ?case by simp
next
  case (Cons x xs)
  have tl: "sorted (nonces xs)" and le: "\<forall>e\<in>set xs. GetNonce (tx (Value x)) \<le> GetNonce (tx (Value e))"
    using Cons.prems by (simp_all add: nonces_def)
  show ?case
  proof (cases "tx (Value x) = t")
    case True
    then show ?thesis by simp
  next
    case ne: False
    show ?thesis
    proof (cases "GetNonce (tx (Value x)) > GetNonce t")
      case True
      have "\<forall>e\<in>set xs. tx (Value e) \<noteq> t"
      proof
        fix e assume "e \<in> set xs"
        then have "GetNonce t < GetNonce (tx (Value e))"
          using le True by auto
        then show "tx (Value e) \<noteq> t" by auto
      qed
      with ne True show ?thesis by simp
    next
      case False
      with ne Cons.IH [OF tl] show ?thesis by simp
    qed
  qed
qed

lemma items_RemoveTx:
  "items (snd (RemoveTx t l)) =
     (case findListElementWithTx (items l) t of
        None \<Rightarrow> items l
      | Some marker \<Rightarrow> list_Remove marker (items l))"
  by (simp add: RemoveTx_def onRemovedListElement_def Let_def split: option.splits)

lemma fresh_RemoveTx: "fresh (snd (RemoveTx t l)) = fresh l"
  by (simp add: RemoveTx_def onRemovedListElement_def Let_def split: option.splits)

lemma copyBatchIndex_RemoveTx: "copyBatchIndex (snd (RemoveTx t l)) = copyBatchIndex l"
  by (simp add: RemoveTx_def onRemovedListElement_def Let_def split: option.splits)

lemma wellFormed_RemoveTx:
  assumes "wellFormed l"
  shows "wellFormed (snd (RemoveTx t l))"
  using assms
  by (auto simp: wellFormed_def items_RemoveTx fresh_RemoveTx list_Remove_def list_all_iff
      distinct_map_filter split: option.splits)

lemma sorted_RemoveTx:
  assumes "sortedByNonce l"
  shows "sortedByNonce (snd (RemoveTx t l))"
  using assms
  by (auto simp: sortedByNonce_def nonces_def items_RemoveTx list_Remove_def sorted_filter
      split: option.splits)

section \<open>Removal from the tail\<close>

lemma word32_succ:
  fixes index count :: "32 word"
  assumes "index < count"
  shows "unat (index + 1) = Suc (unat index)" and "unat index < unat count"
proof -
  have "index + 1 \<noteq> 0"
  proof
    assume "index + 1 = 0"
    then have "index = - 1" by (simp add: eq_neg_iff_add_eq_0)
    with assms show False by simp
  qed
  then show "unat (index + 1) = Suc (unat index)"
    by (simp add: unatSuc add.commute)
  show "unat index < unat count"
    using assms by (simp add: word_less_nat_alt)
qed

lemma RH_loop_None: "RemoveHighNonceTxs_loop count index None removed l = (removed, l)"
  by (simp add: RemoveHighNonceTxs_loop.simps)

lemma RH_loop_stop:
  "\<not> index < count \<Longrightarrow> RemoveHighNonceTxs_loop count index (Some e) removed l = (removed, l)"
  by (simp add: RemoveHighNonceTxs_loop.simps)

lemma RH_loop_step:
  "index < count \<Longrightarrow>
   RemoveHighNonceTxs_loop count index (Some e) removed l =
     RemoveHighNonceTxs_loop count (index + 1) (list_Prev (items l) e)
       (removed[unat index := txHash (Value e)])
       (onRemovedListElement e (l\<lparr>items := list_Remove e (items l)\<rparr>))"
  by (subst RemoveHighNonceTxs_loop.simps) (simp add: Let_def)

lemma items_onRemovedListElement: "items (onRemovedListElement e l) = items l"
  by (simp add: onRemovedListElement_def Let_def)

lemma fresh_onRemovedListElement: "fresh (onRemovedListElement e l) = fresh l"
  by (simp add: onRemovedListElement_def Let_def)

lemma copyBatchIndex_onRemovedListElement:
  "copyBatchIndex (onRemovedListElement e l) = copyBatchIndex l"
  by (simp add: onRemovedListElement_def Let_def)

lemma RH_loop_snoc:
  assumes "distinct (map eid (xs @ [x]))" and "items l = xs @ [x]" and "index < count"
  shows "\<exists>l'. items l' = xs \<and> fresh l' = fresh l \<and> copyBatchIndex l' = copyBatchIndex l \<and>
           RemoveHighNonceTxs_loop count index (list_Back (xs @ [x])) removed l =
           RemoveHighNonceTxs_loop count (index + 1) (list_Back xs)
             (removed[unat index := txHash (Value x)]) l'"
proof -
  have d: "distinct (map eid (xs @ x # []))" using assms(1) by simp
  have p: "list_Prev (items l) x = list_Back xs"
    using list_Prev_at [OF d] assms(2) by simp
  have r: "list_Remove x (items l) = xs"
    using list_Remove_at [OF d] assms(2) by simp
  let ?l' = "onRemovedListElement x (l\<lparr>items := list_Remove x (items l)\<rparr>)"
  have "items ?l' = xs" "fresh ?l' = fresh l" "copyBatchIndex ?l' = copyBatchIndex l"
    by (simp_all add: items_onRemovedListElement fresh_onRemovedListElement
        copyBatchIndex_onRemovedListElement r)
  moreover have "RemoveHighNonceTxs_loop count index (list_Back (xs @ [x])) removed l =
           RemoveHighNonceTxs_loop count (index + 1) (list_Back xs)
             (removed[unat index := txHash (Value x)]) ?l'"
    using RH_loop_step [OF assms(3), of x removed l] by (simp only: list_Back_snoc p)
  ultimately show ?thesis by blast
qed

lemma RH_loop_items:
  assumes "distinct (map eid its)" and "items l = its"
  shows "items (snd (RemoveHighNonceTxs_loop count index (list_Back its) removed l)) =
           take (length its - min (unat count - unat index) (length its)) its"
  using assms
proof (induction its arbitrary: index removed l rule: rev_induct)
  case Nil
  then show ?case by (simp add: list_Back_def RH_loop_None)
next
  case (snoc x xs)
  show ?case
  proof (cases "index < count")
    case False
    then have "unat count - unat index = 0"
      by (simp add: word_less_nat_alt)
    with False snoc.prems show ?thesis
      by (simp add: list_Back_snoc RH_loop_stop)
  next
    case True
    obtain l' where l': "items l' = xs"
      and eq: "RemoveHighNonceTxs_loop count index (list_Back (xs @ [x])) removed l =
               RemoveHighNonceTxs_loop count (index + 1) (list_Back xs)
                 (removed[unat index := txHash (Value x)]) l'"
      using RH_loop_snoc [OF snoc.prems(1) snoc.prems(2) True] by blast
    have dxs: "distinct (map eid xs)" using snoc.prems(1) by simp
    have ih: "items (snd (RemoveHighNonceTxs_loop count (index + 1) (list_Back xs)
                 (removed[unat index := txHash (Value x)]) l')) =
              take (length xs - min (unat count - unat (index + 1)) (length xs)) xs"
      by (rule snoc.IH [OF dxs l'])
    have "length (xs @ [x]) - min (unat count - unat index) (length (xs @ [x]))
          = length xs - min (unat count - unat (index + 1)) (length xs)"
      using word32_succ [OF True] by auto
    moreover have "length xs - min (unat count - unat (index + 1)) (length xs) \<le> length xs"
      by simp
    ultimately show ?thesis
      unfolding eq ih by simp
  qed
qed

lemma RH_loop_fields:
  assumes "distinct (map eid its)" and "items l = its"
  shows "fresh (snd (RemoveHighNonceTxs_loop count index (list_Back its) removed l)) = fresh l
       \<and> copyBatchIndex (snd (RemoveHighNonceTxs_loop count index (list_Back its) removed l))
           = copyBatchIndex l"
  using assms
proof (induction its arbitrary: index removed l rule: rev_induct)
  case Nil
  then show ?case by (simp add: list_Back_def RH_loop_None)
next
  case (snoc x xs)
  show ?case
  proof (cases "index < count")
    case False
    then show ?thesis by (simp add: list_Back_snoc RH_loop_stop)
  next
    case True
    obtain l' where l': "items l' = xs" "fresh l' = fresh l" "copyBatchIndex l' = copyBatchIndex l"
      and eq: "RemoveHighNonceTxs_loop count index (list_Back (xs @ [x])) removed l =
               RemoveHighNonceTxs_loop count (index + 1) (list_Back xs)
                 (removed[unat index := txHash (Value x)]) l'"
      using RH_loop_snoc [OF snoc.prems(1) snoc.prems(2) True] by blast
    have dxs: "distinct (map eid xs)" using snoc.prems(1) by simp
    show ?thesis
      unfolding eq using snoc.IH [OF dxs l'(1)] l'(2,3) by simp
  qed
qed

lemma RH_loop_hashes:
  assumes "distinct (map eid its)" and "items l = its" and "length removed = unat count"
  shows "fst (RemoveHighNonceTxs_loop count index (list_Back its) removed l) =
           take (unat index) removed
           @ map (\<lambda>e. txHash (Value e))
               (rev (drop (length its - min (unat count - unat index) (length its)) its))
           @ drop (unat index + min (unat count - unat index) (length its)) removed"
  using assms
proof (induction its arbitrary: index removed l rule: rev_induct)
  case Nil
  then show ?case by (simp add: list_Back_def RH_loop_None)
next
  case (snoc x xs)
  show ?case
  proof (cases "index < count")
    case False
    then have "unat count - unat index = 0"
      by (simp add: word_less_nat_alt)
    with False show ?thesis
      by (simp add: list_Back_snoc RH_loop_stop)
  next
    case True
    let ?removed' = "removed[unat index := txHash (Value x)]"
    obtain l' where l': "items l' = xs"
      and eq: "RemoveHighNonceTxs_loop count index (list_Back (xs @ [x])) removed l =
               RemoveHighNonceTxs_loop count (index + 1) (list_Back xs) ?removed' l'"
      using RH_loop_snoc [OF snoc.prems(1) snoc.prems(2) True] by blast
    have dxs: "distinct (map eid xs)" using snoc.prems(1) by simp
    have len: "length ?removed' = unat count" using snoc.prems(3) by simp
    define k' where "k' = min (unat count - unat (index + 1)) (length xs)"
    have ih: "fst (RemoveHighNonceTxs_loop count (index + 1) (list_Back xs) ?removed' l') =
           take (unat (index + 1)) ?removed'
           @ map (\<lambda>e. txHash (Value e)) (rev (drop (length xs - k') xs))
           @ drop (unat (index + 1) + k') ?removed'"
      unfolding k'_def by (rule snoc.IH [OF dxs l' len])
    have suc: "unat (index + 1) = Suc (unat index)" and lt: "unat index < unat count"
      using word32_succ [OF True] by simp_all
    have k: "min (unat count - unat index) (length (xs @ [x])) = Suc k'"
      unfolding k'_def suc using lt by auto
    have le: "k' \<le> length xs" unfolding k'_def by simp
    have t: "take (Suc (unat index)) ?removed' = take (unat index) removed @ [txHash (Value x)]"
      using lt snoc.prems(3) by (simp add: take_Suc_conv_app_nth)
    have dr: "drop (Suc (unat index) + k') ?removed' = drop (unat index + Suc k') removed"
      by simp
    have dx: "drop (length (xs @ [x]) - Suc k') (xs @ [x]) = drop (length xs - k') xs @ [x]"
      using le by simp
    show ?thesis
      unfolding eq ih k suc t dr dx by simp
  qed
qed

lemma items_RemoveHighNonceTxs:
  assumes "wellFormed l"
  shows "items (snd (RemoveHighNonceTxs count l)) =
           take (length (items l) - min (unat count) (length (items l))) (items l)"
proof -
  have d: "distinct (map eid (items l))" using assms by (simp add: wellFormed_def)
  show ?thesis
    unfolding RemoveHighNonceTxs_def using RH_loop_items [OF d refl, of count 0] by simp
qed

lemma hashes_RemoveHighNonceTxs:
  assumes "wellFormed l"
  shows "fst (RemoveHighNonceTxs count l) =
           map (\<lambda>e. txHash (Value e))
             (rev (drop (length (items l) - min (unat count) (length (items l))) (items l)))
           @ replicate (unat count - min (unat count) (length (items l))) None"
proof -
  have d: "distinct (map eid (items l))" using assms by (simp add: wellFormed_def)
  have "length (replicate (unat count) (None :: bytes)) = unat count" by simp
  from RH_loop_hashes [OF d refl this, of 0]
  show ?thesis
    unfolding RemoveHighNonceTxs_def by simp
qed

lemma wellFormed_RemoveHighNonceTxs:
  assumes "wellFormed l"
  shows "wellFormed (snd (RemoveHighNonceTxs count l))"
proof -
  have d: "distinct (map eid (items l))" and b: "\<forall>e\<in>set (items l). eid e < fresh l"
    using assms by (simp_all add: wellFormed_def list_all_iff)
  have f: "fresh (snd (RemoveHighNonceTxs count l)) = fresh l"
    unfolding RemoveHighNonceTxs_def using RH_loop_fields [OF d refl] by simp
  have "distinct (map eid (items (snd (RemoveHighNonceTxs count l))))"
    unfolding items_RemoveHighNonceTxs [OF assms] using d by (simp add: distinct_take take_map [symmetric] del: take_map)
  moreover have "\<forall>e\<in>set (items (snd (RemoveHighNonceTxs count l))). eid e < fresh l"
    unfolding items_RemoveHighNonceTxs [OF assms] using b by (auto dest: in_set_takeD)
  ultimately show ?thesis
    by (simp add: wellFormed_def list_all_iff f)
qed

lemma sorted_RemoveHighNonceTxs:
  assumes "wellFormed l" and "sortedByNonce l"
  shows "sortedByNonce (snd (RemoveHighNonceTxs count l))"
  using assms(2) unfolding sortedByNonce_def nonces_def items_RemoveHighNonceTxs [OF assms(1)]
  by (simp add: take_map [symmetric] sorted_wrt_take del: take_map)

lemma copyBatchIndex_RemoveHighNonceTxs:
  assumes "wellFormed l"
  shows "copyBatchIndex (snd (RemoveHighNonceTxs count l)) = copyBatchIndex l"
proof -
  have d: "distinct (map eid (items l))" using assms by (simp add: wellFormed_def)
  show ?thesis
    unfolding RemoveHighNonceTxs_def using RH_loop_fields [OF d refl] by simp
qed

section \<open>Invariants of operation sequences\<close>

lemma invariants_applyOp:
  assumes "wellFormed l" and "sortedByNonce l"
  shows "wellFormed (applyOp operation l) \<and> sortedByNonce (applyOp operation l)"
  using assms
  by (cases operation)
    (simp_all add: wellFormed_AddTx sorted_AddTx wellFormed_RemoveTx sorted_RemoveTx
      wellFormed_RemoveHighNonceTxs sorted_RemoveHighNonceTxs)

lemma invariants_runOps:
  assumes "wellFormed l" and "sortedByNonce l"
  shows "wellFormed (runOps ops l) \<and> sortedByNonce (runOps ops l)"
  using assms
proof (induction ops arbitrary: l)
  case Nil
  then show ?case by simp
next
  case (Cons operation rest)
  then show ?case using invariants_applyOp [of l operation] by simp
qed

lemma cursor_applyOp:
  assumes "wellFormed l"
  shows "copyBatchIndex (applyOp operation l) = copyBatchIndex l"
  using assms
  by (cases operation)
    (simp_all add: copyBatchIndex_AddTx copyBatchIndex_RemoveTx copyBatchIndex_RemoveHighNonceTxs)

lemma cursor_runOps:
  assumes "wellFormed l" and "sortedByNonce l"
  shows "copyBatchIndex (runOps ops l) = copyBatchIndex l"
  using assms
proof (induction ops arbitrary: l)
  case Nil
  then show ?case by simp
next
  case (Cons operation rest)
  then show ?case
    using invariants_applyOp [of l operation] cursor_applyOp [of l operation] by simp
qed

section \<open>The batch cursor\<close>

lemma copy_loop_None:
  "copyBatchTo_loop its b None copied d dh = Some (None, copied, d, dh)"
  by (simp add: copyBatchTo_loop.simps)

lemma copy_loop_stop:
  "int copied = b \<or> copied = length d \<Longrightarrow>
   copyBatchTo_loop its b (Some e) copied d dh = Some (Some e, copied, d, dh)"
  by (simp add: copyBatchTo_loop.simps)

lemma copy_loop_step:
  "int copied \<noteq> b \<Longrightarrow> copied < length d \<Longrightarrow> copied < length dh \<Longrightarrow>
   copyBatchTo_loop its b (Some e) copied d dh =
     copyBatchTo_loop its b (list_Next its e) (Suc copied)
       (d[copied := tx (Value e)]) (dh[copied := txHash (Value e)])"
  by (subst copyBatchTo_loop.simps) (simp add: Let_def)

lemma buffer_step:
  assumes "copied < length d"
  shows "take (Suc copied) (d[copied := v]) @ ys @ drop (Suc copied + k) (d[copied := v]) =
         take copied d @ (v # ys) @ drop (copied + Suc k) d"
  using assms by (simp add: take_Suc_conv_app_nth)

lemma copy_loop_run:
  assumes "distinct (map eid (pre @ suf))" and "0 \<le> b" and "length d \<le> length dh"
    and "copied \<le> min (nat b) (length d)"
  shows "copyBatchTo_loop (pre @ suf) b (list_Front suf) copied d dh =
           Some (list_Front (drop (min (min (nat b) (length d) - copied) (length suf)) suf),
                 copied + min (min (nat b) (length d) - copied) (length suf),
                 take copied d
                   @ map (\<lambda>e. tx (Value e)) (take (min (min (nat b) (length d) - copied) (length suf)) suf)
                   @ drop (copied + min (min (nat b) (length d) - copied) (length suf)) d,
                 take copied dh
                   @ map (\<lambda>e. txHash (Value e)) (take (min (min (nat b) (length d) - copied) (length suf)) suf)
                   @ drop (copied + min (min (nat b) (length d) - copied) (length suf)) dh)"
  using assms
proof (induction suf arbitrary: pre copied d dh)
  case Nil
  then show ?case by (simp add: list_Front_def copy_loop_None)
next
  case (Cons e rest)
  have front: "list_Front (e # rest) = Some e" by (simp add: list_Front_def)
  show ?case
  proof (cases "copied = min (nat b) (length d)")
    case True
    then have "int copied = b \<or> copied = length d"
      using Cons.prems(2) by (auto simp: min_def split: if_splits)
    then have "copyBatchTo_loop (pre @ e # rest) b (Some e) copied d dh = Some (Some e, copied, d, dh)"
      by (rule copy_loop_stop)
    with True show ?thesis by (simp add: front)
  next
    case False
    then have lt: "copied < nat b" "copied < length d"
      using Cons.prems(4) by auto
    then have ne: "int copied \<noteq> b" and ltdh: "copied < length dh"
      using Cons.prems(3) by auto
    let ?d' = "d[copied := tx (Value e)]" and ?dh' = "dh[copied := txHash (Value e)]"
    define k' where "k' = min (min (nat b) (length d) - Suc copied) (length rest)"
    have k: "min (min (nat b) (length d) - copied) (length (e # rest)) = Suc k'"
      unfolding k'_def using lt by (simp only: length_Cons) arith
    have nxt: "list_Next (pre @ e # rest) e = list_Front rest"
      by (rule list_Next_at [OF Cons.prems(1)])
    have step: "copyBatchTo_loop (pre @ e # rest) b (Some e) copied d dh =
        copyBatchTo_loop ((pre @ [e]) @ rest) b (list_Front rest) (Suc copied) ?d' ?dh'"
      using copy_loop_step [OF ne lt(2) ltdh, of "pre @ e # rest" e] nxt by simp
    have d': "distinct (map eid ((pre @ [e]) @ rest))" using Cons.prems(1) by simp
    have le': "length ?d' \<le> length ?dh'" using Cons.prems(3) by simp
    have c': "Suc copied \<le> min (nat b) (length ?d')" using lt by simp
    have ih: "copyBatchTo_loop ((pre @ [e]) @ rest) b (list_Front rest) (Suc copied) ?d' ?dh' =
           Some (list_Front (drop k' rest), Suc copied + k',
                 take (Suc copied) ?d' @ map (\<lambda>e. tx (Value e)) (take k' rest)
                   @ drop (Suc copied + k') ?d',
                 take (Suc copied) ?dh' @ map (\<lambda>e. txHash (Value e)) (take k' rest)
                   @ drop (Suc copied + k') ?dh')"
      using Cons.IH [OF d' Cons.prems(2) le' c'] unfolding k'_def by simp
    show ?thesis
      unfolding front step ih k
      using buffer_step [OF lt(2)] buffer_step [OF ltdh] by simp
  qed
qed

lemma copyBatchTo_run:
  assumes "distinct (map eid (items l))" and "0 \<le> b" and "length d \<le> length dh"
    and "withReset \<or> copyBatchIndex l = list_Front (drop i (items l))"
    and "withReset \<longrightarrow> i = 0"
  shows "\<exists>d' dh' l'.
           copyBatchTo withReset d dh b l =
             Some (min (min (nat b) (length d)) (length (items l) - i), d', dh', l')
         \<and> items l' = items l
         \<and> copyBatchIndex l' =
             list_Front (drop (i + min (min (nat b) (length d)) (length (items l) - i)) (items l))
         \<and> zip (take (min (min (nat b) (length d)) (length (items l) - i)) d')
               (take (min (min (nat b) (length d)) (length (items l) - i)) dh')
             = take (min (min (nat b) (length d)) (length (items l) - i)) (drop i (entries l))"
proof -
  define l1 where "l1 = (if withReset then l\<lparr>copyBatchIndex := list_Front (items l)\<rparr> else l)"
  define suf where "suf = drop i (items l)"
  define k where "k = min (min (nat b) (length d)) (length (items l) - i)"
  have its1: "items l1 = items l" by (simp add: l1_def)
  have cur1: "copyBatchIndex l1 = list_Front suf"
    using assms(4,5) by (auto simp: l1_def suf_def)
  have lensuf: "length suf = length (items l) - i" by (simp add: suf_def)
  have unf: "copyBatchTo withReset d dh b l =
     (if list_Front suf = None then Some (0, d, dh, l1)
      else (case copyBatchTo_loop (items l) b (list_Front suf) 0 d dh of
              None \<Rightarrow> None
            | Some (element', copied, destination', destinationHashes') \<Rightarrow>
                Some (copied, destination', destinationHashes', l1\<lparr>copyBatchIndex := element'\<rparr>)))"
    unfolding copyBatchTo_def Let_def l1_def [symmetric] cur1 its1 by simp
  show ?thesis
  proof (cases "suf = []")
    case True
    then have k0: "k = 0" using lensuf by (simp add: k_def)
    have "drop (i + 0) (items l) = []" using True by (simp add: suf_def)
    then have "copyBatchIndex l1 = list_Front (drop (i + 0) (items l))"
      using cur1 True by simp
    moreover have "copyBatchTo withReset d dh b l = Some (0, d, dh, l1)"
      unfolding unf using True by (simp add: list_Front_None)
    ultimately show ?thesis
      unfolding k_def [symmetric] k0 using its1 by simp
  next
    case False
    have split: "items l = take i (items l) @ suf" by (simp add: suf_def)
    have dist: "distinct (map eid (take i (items l) @ suf))"
      using assms(1) split by simp
    have run: "copyBatchTo_loop (items l) b (list_Front suf) 0 d dh =
           Some (list_Front (drop k suf), k,
                 map (\<lambda>e. tx (Value e)) (take k suf) @ drop k d,
                 map (\<lambda>e. txHash (Value e)) (take k suf) @ drop k dh)"
      using copy_loop_run [OF dist assms(2) assms(3), of 0] split
      by (simp add: k_def lensuf)
    let ?d' = "map (\<lambda>e. tx (Value e)) (take k suf) @ drop k d"
    let ?dh' = "map (\<lambda>e. txHash (Value e)) (take k suf) @ drop k dh"
    let ?l' = "l1\<lparr>copyBatchIndex := list_Front (drop k suf)\<rparr>"
    have res: "copyBatchTo withReset d dh b l = Some (k, ?d', ?dh', ?l')"
      unfolding unf run using False by (simp add: list_Front_None)
    have klen: "k \<le> length suf" by (simp add: k_def lensuf)
    have "zip (take k ?d') (take k ?dh') = map (\<lambda>e. (tx (Value e), txHash (Value e))) (take k suf)"
      using klen by (simp add: zip_map_map zip_same_conv_map)
    then have z: "zip (take k ?d') (take k ?dh') = take k (drop i (entries l))"
      by (simp add: entries_def suf_def take_map drop_map)
    have c: "copyBatchIndex ?l' = list_Front (drop (i + k) (items l))"
      by (simp add: suf_def add.commute)
    have "items ?l' = items l" by (simp add: its1)
    with res z c show ?thesis
      unfolding k_def [symmetric] by blast
  qed
qed

lemma concat_batches: "concat (batches xs ks) = take (sum_list ks) xs"
  by (induction ks arbitrary: xs) (simp_all add: take_add)

lemma sweep_run:
  assumes "distinct (map eid (items l))" and "list_all validCall calls"
    and "withReset \<or> copyBatchIndex l = list_Front (drop i (items l))"
    and "withReset \<longrightarrow> i = 0"
  shows "\<exists>l'. sweep withReset calls l =
                 Some (batches (drop i (entries l)) (map batchLimit calls), l')
             \<and> items l' = items l"
  using assms
proof (induction calls arbitrary: l i withReset)
  case Nil
  then show ?case by simp
next
  case (Cons c calls)
  obtain d dh b where c: "c = (d, dh, b)" by (cases c) auto
  have vs: "list_all validCall calls" and vc: "validCall c"
    using Cons.prems(2) by simp_all
  have v: "0 \<le> b" "length d \<le> length dh"
    using vc by (simp_all add: c validCall_def)
  define k where "k = min (min (nat b) (length d)) (length (items l) - i)"
  obtain d' dh' l' where
    run: "copyBatchTo withReset d dh b l = Some (k, d', dh', l')"
    and its: "items l' = items l"
    and cur: "copyBatchIndex l' = list_Front (drop (i + k) (items l))"
    and chunk: "zip (take k d') (take k dh') = take k (drop i (entries l))"
    using copyBatchTo_run [OF Cons.prems(1) v Cons.prems(3) Cons.prems(4)]
    unfolding k_def by blast
  have ent: "entries l' = entries l" by (simp add: entries_def its)
  have d1: "distinct (map eid (items l'))" using Cons.prems(1) its by simp
  have c1: "False \<or> copyBatchIndex l' = list_Front (drop (i + k) (items l'))"
    using cur its by simp
  obtain l'' where
    rest: "sweep False calls l' = Some (batches (drop (i + k) (entries l')) (map batchLimit calls), l'')"
    and its'': "items l'' = items l'"
    using Cons.IH [OF d1 vs c1] by blast
  have lim: "batchLimit c = min (nat b) (length d)" by (simp add: batchLimit_def c)
  have len: "length (drop i (entries l)) = length (items l) - i" by (simp add: entries_def)
  have t: "take (batchLimit c) (drop i (entries l)) = take k (drop i (entries l))"
  proof (cases "min (nat b) (length d) \<le> length (items l) - i")
    case True
    then show ?thesis by (simp add: lim k_def)
  next
    case False
    have "min (min (nat b) (length d)) (length (items l) - i) = length (drop i (entries l))"
      using False len by arith
    moreover have "length (drop i (entries l)) \<le> min (nat b) (length d)"
      using False len by arith
    ultimately show ?thesis by (simp only: lim k_def take_all order_refl)
  qed
  have dr: "drop (batchLimit c) (drop i (entries l)) = drop (i + k) (entries l)"
  proof (cases "min (nat b) (length d) \<le> length (items l) - i")
    case True
    then show ?thesis by (simp add: lim k_def add.commute)
  next
    case False
    then have "k = length (items l) - i" by (simp add: k_def)
    moreover have "length (entries l) = length (items l)" by (simp add: entries_def)
    ultimately show ?thesis using False by (simp add: lim)
  qed
  have "sweep withReset (c # calls) l =
          Some (take k (drop i (entries l))
                  # batches (drop (i + k) (entries l)) (map batchLimit calls), l'')"
    by (simp add: c run rest chunk ent)
  moreover have "batches (drop i (entries l)) (map batchLimit (c # calls)) =
          take k (drop i (entries l)) # batches (drop (i + k) (entries l)) (map batchLimit calls)"
    by (simp only: list.map batches.simps t dr)
  ultimately show ?case using its its'' by simp
qed

section \<open>The counter of the registry\<close>

lemma liveSenders_storeList:
  "s \<in> liveSenders txMap \<Longrightarrow> liveSenders (storeList s l txMap) = liveSenders txMap"
  by (auto simp: liveSenders_def storeList_def)

lemma counter_storeList: "counter (storeList s l txMap) = counter txMap"
  by (simp add: storeList_def)

lemma counterExact_storeList:
  "s \<in> liveSenders txMap \<Longrightarrow> counterExact txMap \<Longrightarrow> counterExact (storeList s l txMap)"
  by (simp add: counterExact_def liveSenders_storeList counter_storeList)

lemma counterExact_new: "counterExact newTxListBySenderMap"
  by (simp add: counterExact_def liveSenders_def newTxListBySenderMap_def)

lemma counterExact_clear: "counterExact (clear txMap)"
  by (simp add: counterExact_def liveSenders_def clear_def bsm_Clear_def)

lemma counterExact_addSender:
  assumes "counterExact txMap" and "s \<notin> liveSenders txMap"
  shows "counterExact (snd (addSender s txMap)) \<and> s \<in> liveSenders (snd (addSender s txMap))"
proof -
  have live: "liveSenders (snd (addSender s txMap)) = insert s (liveSenders txMap)"
    by (simp add: addSender_def liveSenders_def bsm_Set_def newTxListForSender_def Let_def)
  have cnt: "counter (snd (addSender s txMap)) = counter txMap + 1"
    by (simp add: addSender_def Let_def)
  have fin: "finite (liveSenders txMap)" and c: "counter txMap = of_nat (card (liveSenders txMap))"
    using assms(1) by (simp_all add: counterExact_def)
  have "card (insert s (liveSenders txMap)) = Suc (card (liveSenders txMap))"
    using fin assms(2) by simp
  then show ?thesis
    unfolding counterExact_def live cnt c using fin by simp
qed

lemma counterExact_getOrAddListForSender:
  assumes "counterExact txMap"
  shows "counterExact (snd (getOrAddListForSender s txMap))
       \<and> s \<in> liveSenders (snd (getOrAddListForSender s txMap))"
proof (cases "backingMap txMap s")
  case None
  then have "s \<notin> liveSenders txMap" by (simp add: liveSenders_def dom_def)
  with assms have "counterExact (snd (addSender s txMap)) \<and> s \<in> liveSenders (snd (addSender s txMap))"
    by (simp add: counterExact_addSender)
  with None show ?thesis
    by (simp add: getOrAddListForSender_def getListForSender_def bsm_Get_def)
next
  case (Some listForSender)
  then have "s \<in> liveSenders txMap" by (auto simp: liveSenders_def)
  with Some assms show ?thesis
    by (simp add: getOrAddListForSender_def getListForSender_def bsm_Get_def)
qed

lemma counterExact_addTx:
  assumes "counterExact txMap"
  shows "counterExact (addTx w txMap)"
proof -
  obtain listForSender txMap1 where g: "getOrAddListForSender (GetSndAddr (Tx w)) txMap = (listForSender, txMap1)"
    by (cases "getOrAddListForSender (GetSndAddr (Tx w)) txMap") auto
  have "counterExact txMap1 \<and> GetSndAddr (Tx w) \<in> liveSenders txMap1"
    using counterExact_getOrAddListForSender [OF assms, of "GetSndAddr (Tx w)"] g by simp
  then show ?thesis
    by (simp add: addTx_def Let_def g counterExact_storeList)
qed

lemma counterExact_removeSender:
  assumes "counterExact txMap"
  shows "counterExact (snd (removeSender s txMap))"
proof (cases "backingMap txMap s")
  case None
  with assms show ?thesis by (simp add: removeSender_def bsm_Has_def)
next
  case (Some listForSender)
  then have mem: "s \<in> liveSenders txMap" by (auto simp: liveSenders_def)
  have fin: "finite (liveSenders txMap)" and c: "counter txMap = of_nat (card (liveSenders txMap))"
    using assms by (simp_all add: counterExact_def)
  have live: "liveSenders (snd (removeSender s txMap)) = liveSenders txMap - {s}"
    using Some by (simp add: removeSender_def bsm_Has_def bsm_Remove_def liveSenders_def Let_def)
  have cnt: "counter (snd (removeSender s txMap)) = counter txMap - 1"
    using Some by (simp add: removeSender_def bsm_Has_def Let_def)
  have "card (liveSenders txMap) = Suc (card (liveSenders txMap - {s}))"
    using fin mem by (rule card.remove)
  then have "(of_nat (card (liveSenders txMap)) :: 64 word) =
      of_nat (Suc (card (liveSenders txMap - {s})))"
    by (rule arg_cong)
  then have "(of_nat (card (liveSenders txMap)) :: 64 word) - 1 =
      of_nat (card (liveSenders txMap - {s}))"
    by (simp only: of_nat_Suc add_diff_cancel_left')
  moreover have "finite (liveSenders txMap - {s})"
    using fin by simp
  ultimately show ?thesis
    by (simp only: counterExact_def live cnt c simp_thms)
qed

lemma counterExact_removeTx:
  assumes "counterExact txMap"
  shows "counterExact (snd (removeTx w txMap))"
proof (cases "backingMap txMap (GetSndAddr (Tx w))")
  case None
  with assms show ?thesis by (simp add: removeTx_def getListForSender_def bsm_Get_def)
next
  case (Some listForSender)
  then have mem: "GetSndAddr (Tx w) \<in> liveSenders txMap" by (auto simp: liveSenders_def)
  obtain isFound listForSender' where r: "RemoveTx (Tx w) listForSender = (isFound, listForSender')"
    by (cases "RemoveTx (Tx w) listForSender") auto
  have st: "counterExact (storeList (GetSndAddr (Tx w)) listForSender' txMap)"
    using mem assms by (rule counterExact_storeList)
  then have "counterExact (snd (removeSender (GetSndAddr (Tx w))
      (storeList (GetSndAddr (Tx w)) listForSender' txMap)))"
    by (rule counterExact_removeSender)
  with st Some r show ?thesis
    by (simp add: removeTx_def getListForSender_def bsm_Get_def Let_def)
qed

lemma counterExact_RemoveSendersBulk_loop:
  assumes "counterExact txMap"
  shows "counterExact (snd (RemoveSendersBulk_loop senders numRemoved txMap))"
  using assms
proof (induction senders arbitrary: numRemoved txMap)
  case Nil
  then show ?case by simp
next
  case (Cons senderKey senders)
  obtain ok txMap' where r: "removeSender senderKey txMap = (ok, txMap')"
    by (cases "removeSender senderKey txMap") auto
  have "counterExact txMap'"
    using counterExact_removeSender [OF Cons.prems, of senderKey] r by simp
  then show ?case
    using Cons.IH r by (cases ok) simp_all
qed

lemma counterExact_applyRegistryOp:
  assumes "counterExact txMap"
  shows "counterExact (applyRegistryOp operation txMap)"
  using assms
  by (cases operation)
    (simp_all add: counterExact_addTx counterExact_removeTx counterExact_clear
      RemoveSendersBulk_def counterExact_RemoveSendersBulk_loop)

lemma counterExact_runRegistryOps:
  assumes "counterExact txMap"
  shows "counterExact (runRegistryOps ops txMap)"
  using assms
  by (induction ops arbitrary: txMap) (simp_all add: counterExact_applyRegistryOp)

section \<open>The claims of the specification\<close>

subsection \<open>C1: the running totals\<close>

text \<open>
  C1 says that after every operation of a sequence of \<open>AddTx\<close>, \<open>RemoveTx\<close> and
  \<open>RemoveHighNonceTxs\<close> the three totals are the exact sums over the transactions
  present. Adding keeps the totals exact (\<open>totalsExact_AddTx\<close>). Removing does not:
  \<open>onRemovedListElement\<close> subtracts the fee from \<open>totalGas\<close> and never touches
  \<open>totalFee\<close>. After adding one transaction (50 gas, fee 7) and removing it again the
  list is empty, yet \<open>totalFee\<close> is 7 and \<open>totalGas\<close> is \<open>-7\<close>.
\<close>

theorem C1_fee_total_not_reduced_on_removal:
  "items addedThenRemoved = [] \<and>
   sumFee addedThenRemoved = 0 \<and> totalFee addedThenRemoved = 7 \<and>
   sumGas addedThenRemoved = 0 \<and> totalGas addedThenRemoved = - 7 \<and>
   \<not> totalsExact addedThenRemoved"
  by code_simp

subsection \<open>C2: sorted by nonce\<close>

text \<open>
  C2: for every sequence of \<open>AddTx\<close>, \<open>RemoveTx\<close> and \<open>RemoveHighNonceTxs\<close> on a
  list that starts empty, the stored transactions are non-decreasing by nonce after the
  sequence (so after each of its operations, every prefix being a sequence), and
  \<open>AddTx\<close> puts the new entry right before the first entry with a strictly greater
  nonce, or at the end when there is none.
\<close>

theorem C2_sorted_after_every_operation:
  "sortedByNonce (runOps ops (newTxListForSender s)) \<and>
   (\<forall>h t. items (AddTx h t (runOps ops (newTxListForSender s))) =
      takeWhile (\<lambda>e. GetNonce (tx (Value e)) \<le> GetNonce t) (items (runOps ops (newTxListForSender s)))
      @ \<lparr>eid = fresh (runOps ops (newTxListForSender s)), Value = \<lparr>txHash = h, tx = t\<rparr>\<rparr>
      # dropWhile (\<lambda>e. GetNonce (tx (Value e)) \<le> GetNonce t) (items (runOps ops (newTxListForSender s))))"
proof -
  have inv: "wellFormed (runOps ops (newTxListForSender s)) \<and> sortedByNonce (runOps ops (newTxListForSender s))"
    by (rule invariants_runOps [OF wellFormed_new sorted_new])
  then have "distinct (map eid (items (runOps ops (newTxListForSender s))))"
    by (simp add: wellFormed_def)
  then show ?thesis
    using inv AddTx_items by blast
qed

theorem C2_witness:
  "sortedByNonce sampleList \<and> nonces (items sampleList) = [1, 2, 3]"
proof -
  have n: "nonces (items sampleList) = [1, 2, 3]" by code_simp
  show ?thesis
    using C2_sorted_after_every_operation
      [of "[OpAddTx (Some [3]) (sampleTx 0 3), OpAddTx (Some [1]) (sampleTx 1 1),
            OpAddTx (Some [2]) (sampleTx 2 2)]" "''alice''"] n
    by (simp add: sampleList_def)
qed

subsection \<open>C3: tail eviction\<close>

text \<open>
  C3: on a list of \<open>n\<close> transactions, sorted by nonce, \<open>RemoveHighNonceTxs(k)\<close>
  removes exactly \<open>min(k, n)\<close> entries, namely the last ones of the list; no entry that
  stays has a greater nonce than an entry that goes, and what stays is sorted.
\<close>

theorem C3_tail_eviction:
  assumes "wellFormed l" and "sortedByNonce l"
  shows "items (snd (RemoveHighNonceTxs count l)) =
           take (length (items l) - min (unat count) (length (items l))) (items l)
       \<and> length (items (snd (RemoveHighNonceTxs count l))) =
           length (items l) - min (unat count) (length (items l))
       \<and> (\<forall>kept\<in>set (items (snd (RemoveHighNonceTxs count l))).
            \<forall>removed\<in>set (drop (length (items l) - min (unat count) (length (items l))) (items l)).
              GetNonce (tx (Value kept)) \<le> GetNonce (tx (Value removed)))
       \<and> sortedByNonce (snd (RemoveHighNonceTxs count l))"
proof -
  let ?m = "length (items l) - min (unat count) (length (items l))"
  have its: "items (snd (RemoveHighNonceTxs count l)) = take ?m (items l)"
    by (rule items_RemoveHighNonceTxs [OF assms(1)])
  have "sorted (map (\<lambda>e. GetNonce (tx (Value e))) (take ?m (items l) @ drop ?m (items l)))"
    using assms(2) by (simp add: sortedByNonce_def nonces_def)
  then have "\<forall>kept\<in>set (take ?m (items l)). \<forall>removed\<in>set (drop ?m (items l)).
      GetNonce (tx (Value kept)) \<le> GetNonce (tx (Value removed))"
    unfolding map_append sorted_append by auto
  then show ?thesis
    using sorted_RemoveHighNonceTxs [OF assms] unfolding its by simp
qed

theorem C3_witness:
  "wellFormed sampleList \<and> sortedByNonce sampleList \<and>
   nonces (items (snd (RemoveHighNonceTxs 2 sampleList))) = [1] \<and>
   sortedByNonce (snd (RemoveHighNonceTxs 2 sampleList))"
proof -
  have w: "wellFormed sampleList" by code_simp
  have s: "sortedByNonce sampleList" by code_simp
  have n: "nonces (take (length (items sampleList) - min (unat (2 :: 32 word)) (length (items sampleList)))
     (items sampleList)) = [1]" by code_simp
  show ?thesis
    using C3_tail_eviction [OF w s, of 2] w s n by simp
qed

subsection \<open>C4: the hashes returned by tail eviction\<close>

text \<open>
  C4 says that \<open>RemoveHighNonceTxs(k)\<close> returns the removed hashes in removal order and,
  when the list holds \<open>n < k\<close> transactions, a result of exactly the \<open>n\<close> removed
  hashes. The result is allocated with \<open>k\<close> slots and returned whole: on a list of one
  transaction, \<open>RemoveHighNonceTxs(2)\<close> returns two slots, the removed hash and nil.
\<close>

theorem C4_result_is_padded_counterexample:
  "length (items singleList) = 1 \<and>
   fst (RemoveHighNonceTxs 2 singleList) = [Some [1], None] \<and>
   fst (RemoveHighNonceTxs 2 singleList) \<noteq> hashes (items singleList)"
  by code_simp

text \<open>
  C4, amended: \<open>RemoveHighNonceTxs(k)\<close> on a sorted list of \<open>n\<close> transactions returns
  a slice of exactly \<open>k\<close> slots: first the hashes of the \<open>min(k, n)\<close> removed
  entries in removal order, highest nonce first, then \<open>k - min(k, n)\<close> nil slots. When
  \<open>n < k\<close> all \<open>n\<close> entries are removed; this is not an error.
\<close>

theorem C4_removed_hashes_then_nil_padding:
  assumes "wellFormed l" and "sortedByNonce l"
  shows "fst (RemoveHighNonceTxs count l) =
           hashes (rev (drop (length (items l) - min (unat count) (length (items l))) (items l)))
           @ replicate (unat count - min (unat count) (length (items l))) None
       \<and> length (fst (RemoveHighNonceTxs count l)) = unat count
       \<and> items (snd (RemoveHighNonceTxs count l)) =
           take (length (items l) - min (unat count) (length (items l))) (items l)
       \<and> sorted (rev (nonces
           (rev (drop (length (items l) - min (unat count) (length (items l))) (items l)))))"
proof -
  let ?m = "length (items l) - min (unat count) (length (items l))"
  have h: "fst (RemoveHighNonceTxs count l) =
           hashes (rev (drop ?m (items l)))
           @ replicate (unat count - min (unat count) (length (items l))) None"
    unfolding hashes_def by (rule hashes_RemoveHighNonceTxs [OF assms(1)])
  have "length (fst (RemoveHighNonceTxs count l)) = unat count"
    unfolding h hashes_def by auto
  moreover have "sorted (nonces (drop ?m (items l)))"
    using assms(2) unfolding sortedByNonce_def nonces_def
    by (simp add: drop_map [symmetric] sorted_wrt_drop del: drop_map)
  then have "sorted (rev (nonces (rev (drop ?m (items l)))))"
    by (simp add: nonces_def rev_map)
  ultimately show ?thesis
    using h items_RemoveHighNonceTxs [OF assms(1)] by simp
qed

theorem C4_witness:
  "wellFormed sampleList \<and> sortedByNonce sampleList \<and>
   fst (RemoveHighNonceTxs 5 sampleList) = [Some [3], Some [2], Some [1], None, None] \<and>
   items (snd (RemoveHighNonceTxs 5 sampleList)) = []"
proof -
  have w: "wellFormed sampleList" by code_simp
  have s: "sortedByNonce sampleList" by code_simp
  have h: "hashes (rev (drop (length (items sampleList) - min (unat (5 :: 32 word))
               (length (items sampleList))) (items sampleList)))
           @ replicate (unat (5 :: 32 word) - min (unat (5 :: 32 word)) (length (items sampleList))) None
         = [Some [3], Some [2], Some [1], None, None]" by code_simp
  have t: "take (length (items sampleList) - min (unat (5 :: 32 word)) (length (items sampleList)))
             (items sampleList) = []" by code_simp
  show ?thesis
    using C4_removed_hashes_then_nil_padding [OF w s, of 5] w s h t by simp
qed

subsection \<open>C5: removing one transaction\<close>

text \<open>
  C5 says that on a sorted list \<open>RemoveTx(tx)\<close> returns true exactly when an entry
  matching \<open>tx\<close> by identity, that is by the same hash, is present. The scan compares
  the stored handler with the argument (\<open>value.tx == txToFind\<close>), which is identity of
  the transaction object; the stored hash is never read. A second transaction object
  of the same content as the one stored under hash \<open>[2]\<close>, hence of the same hash, is
  reported absent.
\<close>

theorem C5_same_hash_copy_not_found_counterexample:
  "hashes (items sampleList) = [Some [1], Some [2], Some [3]] \<and>
   handlers (items sampleList) = [sampleTx 1 1, sampleTx 2 2, sampleTx 0 3] \<and>
   sameContent (sampleTx 7 2) (sampleTx 2 2) \<and>
   RemoveTx (sampleTx 7 2) sampleList = (False, sampleList)"
  by code_simp

text \<open>
  C5, amended: on a list sorted by nonce, \<open>RemoveTx(tx)\<close> returns true exactly when an
  entry whose stored handler is identical to \<open>tx\<close> (the same transaction object; hashes
  and contents are not compared) is present: the scan, which gives up at the first
  nonce strictly greater than that of \<open>tx\<close>, misses no such entry. When there is none,
  it returns false and the list is left as it was, sequence and totals included.
\<close>

theorem C5_remove_finds_present_and_only_present:
  assumes "sortedByNonce l"
  shows "fst (RemoveTx t l) = (\<exists>e\<in>set (items l). tx (Value e) = t)
       \<and> ((\<forall>e\<in>set (items l). tx (Value e) \<noteq> t) \<longrightarrow> RemoveTx t l = (False, l))"
proof -
  have "(findListElementWithTx (items l) t = None) = (\<forall>e\<in>set (items l). tx (Value e) \<noteq> t)"
    using assms by (simp add: sortedByNonce_def findListElementWithTx_sorted)
  then show ?thesis
    by (auto simp: RemoveTx_def split: option.splits)
qed

theorem C5_witness:
  "sortedByNonce sampleList \<and>
   fst (RemoveTx (sampleTx 2 2) sampleList) \<and>
   RemoveTx (sampleTx 7 2) sampleList = (False, sampleList)"
proof -
  have s: "sortedByNonce sampleList" by code_simp
  have p: "\<exists>e\<in>set (items sampleList). tx (Value e) = sampleTx 2 2" by code_simp
  have a: "\<forall>e\<in>set (items sampleList). tx (Value e) \<noteq> sampleTx 7 2" by code_simp
  show ?thesis
    using C5_remove_finds_present_and_only_present [OF s, of "sampleTx 2 2"]
      C5_remove_finds_present_and_only_present [OF s, of "sampleTx 7 2"] s p a
    by simp
qed

subsection \<open>C6: two transactions with the same nonce\<close>

text \<open>
  C6 says that after \<open>AddTx\<close> of a transaction whose nonce is already in the list,
  exactly one entry has that nonce. \<open>AddTx\<close> has no look-up for an equal nonce: adding
  two transactions of nonce 5 leaves both in the list, in order of arrival.
\<close>

theorem C6_both_entries_kept_counterexample:
  "nonces (items sameNonceList) = [5, 5] \<and> hashes (items sameNonceList) = [Some [1], Some [2]]"
  by code_simp

text \<open>
  C6, amended: \<open>AddTx\<close> always inserts. The new entry goes behind every entry whose
  nonce is at most its own, so behind the entries of the same nonce; every entry that
  was there stays, and the list holds one more entry of that nonce than before.
\<close>

theorem C6_add_keeps_existing_and_inserts_new:
  assumes "wellFormed l"
  shows "items (AddTx h t l) =
           takeWhile (\<lambda>e. GetNonce (tx (Value e)) \<le> GetNonce t) (items l)
           @ \<lparr>eid = fresh l, Value = \<lparr>txHash = h, tx = t\<rparr>\<rparr>
           # dropWhile (\<lambda>e. GetNonce (tx (Value e)) \<le> GetNonce t) (items l)
       \<and> length (filter (\<lambda>e. GetNonce (tx (Value e)) = GetNonce t) (items (AddTx h t l))) =
           Suc (length (filter (\<lambda>e. GetNonce (tx (Value e)) = GetNonce t) (items l)))"
proof -
  have d: "distinct (map eid (items l))" using assms by (simp add: wellFormed_def)
  obtain pre post where its: "items l = pre @ post"
    and its': "items (AddTx h t l) = pre @ \<lparr>eid = fresh l, Value = \<lparr>txHash = h, tx = t\<rparr>\<rparr> # post"
    using d by (rule AddTx_items_split)
  have "length (filter (\<lambda>e. GetNonce (tx (Value e)) = GetNonce t) (items (AddTx h t l))) =
           Suc (length (filter (\<lambda>e. GetNonce (tx (Value e)) = GetNonce t) (items l)))"
    unfolding its its' by simp
  then show ?thesis
    using AddTx_items [OF d] by simp
qed

theorem C6_witness:
  "wellFormed fiveList \<and> nonces (items fiveList) = [5] \<and>
   length (filter (\<lambda>e. GetNonce (tx (Value e)) = GetNonce (sampleTx 1 5))
     (items (AddTx (Some [2]) (sampleTx 1 5) fiveList))) = 2"
proof -
  have w: "wellFormed fiveList" by code_simp
  have n: "nonces (items fiveList) = [5]" by code_simp
  have c: "length (filter (\<lambda>e. GetNonce (tx (Value e)) = GetNonce (sampleTx 1 5)) (items fiveList)) = 1"
    by code_simp
  have "length (filter (\<lambda>e. GetNonce (tx (Value e)) = GetNonce (sampleTx 1 5))
          (items (AddTx (Some [2]) (sampleTx 1 5) fiveList))) =
        Suc (length (filter (\<lambda>e. GetNonce (tx (Value e)) = GetNonce (sampleTx 1 5)) (items fiveList)))"
    using C6_add_keeps_existing_and_inserts_new [OF w, of "Some [2]" "sampleTx 1 5"]
    by (rule conjunct2)
  with w n c show ?thesis
    by simp
qed

subsection \<open>C7: the resumable cursor\<close>

text \<open>
  C7 says that, for every list left alone between the calls, a call of \<open>copyBatchTo\<close>
  with reset followed by calls without reset, each copying up to
  \<open>min(batchSize, len(destination), remaining)\<close> entries, hands out exactly the full
  sequence. Two kinds of call break this. A hash buffer shorter than the transaction
  buffer makes the call panic at the first hash it cannot store: nothing is returned.
  A negative batch size never equals the number copied, so the batch ends only at the
  end of the buffer or of the list: with batch size \<open>-1\<close> and a buffer of two, two
  entries are copied, not \<open>min(-1, 2, 3)\<close>.
\<close>

theorem C7_panic_and_negative_batch_counterexample:
  "length (items sampleList) = 3 \<and>
   sweep True shortHashCalls sampleList = None \<and>
   map length (fst (the (sweep True negativeBatchCalls sampleList))) = [2]"
  by code_simp

text \<open>
  C7, amended: on a list that is left alone between the calls, with calls whose batch
  size is not negative and whose hash buffer is at least as long as their transaction
  buffer, a call of \<open>copyBatchTo\<close> with reset followed by calls without reset returns
  every time and hands out the stored entries in list order, each call
  \<open>min(batchSize, len(destination), remaining)\<close> of them from where the previous call
  stopped; the chunks put together are a prefix of the sequence with nothing twice and
  nothing left out, and exactly the whole sequence as soon as the limits
  \<open>min(batchSize, len(destination))\<close> of the calls add up to the number of entries.
\<close>

theorem C7_sweep_yields_full_sequence:
  assumes "wellFormed l" and "list_all validCall calls"
  shows "(\<exists>l'. sweep True calls l = Some (batches (entries l) (map batchLimit calls), l')
            \<and> items l' = items l)
       \<and> concat (batches (entries l) (map batchLimit calls)) =
           take (sum_list (map batchLimit calls)) (entries l)
       \<and> (length (items l) \<le> sum_list (map batchLimit calls) \<longrightarrow>
            concat (batches (entries l) (map batchLimit calls)) = entries l)"
proof -
  have d: "distinct (map eid (items l))" using assms(1) by (simp add: wellFormed_def)
  have "\<exists>l'. sweep True calls l = Some (batches (drop 0 (entries l)) (map batchLimit calls), l')
            \<and> items l' = items l"
    by (rule sweep_run [OF d assms(2)]) simp_all
  moreover have "length (entries l) = length (items l)" by (simp add: entries_def)
  ultimately show ?thesis
    by (simp add: concat_batches)
qed

theorem C7_witness:
  "wellFormed sampleList \<and> list_all validCall sampleCalls \<and>
   map (map snd) (fst (the (sweep True sampleCalls sampleList))) = [[Some [1], Some [2]], [Some [3]]] \<and>
   concat (fst (the (sweep True sampleCalls sampleList))) = entries sampleList"
proof -
  have w: "wellFormed sampleList" by code_simp
  have v: "list_all validCall sampleCalls" by code_simp
  have n: "length (items sampleList) \<le> sum_list (map batchLimit sampleCalls)" by code_simp
  have e: "map (map snd) (batches (entries sampleList) (map batchLimit sampleCalls))
     = [[Some [1], Some [2]], [Some [3]]]" by code_simp
  show ?thesis
    using C7_sweep_yields_full_sequence [OF w v] w v n e by auto
qed

subsection \<open>C8: the live-sender counter\<close>

text \<open>
  C8: after every sequence of \<open>addTx\<close>, \<open>removeTx\<close>, \<open>RemoveSendersBulk\<close> and
  \<open>clear\<close> on a fresh registry, run one after the other, the counter is the number of
  senders in the index (as an \<open>int64\<close>).
\<close>

theorem C8_counter_equals_number_of_senders:
  "finite (liveSenders (runRegistryOps ops newTxListBySenderMap)) \<and>
   counter (runRegistryOps ops newTxListBySenderMap) =
     of_nat (card (liveSenders (runRegistryOps ops newTxListBySenderMap)))"
  using counterExact_runRegistryOps [OF counterExact_new, of ops]
  by (simp add: counterExact_def)

theorem C8_witness:
  "counter sampleRegistry = 1 \<and>
   bsm_Has ''alice'' (backingMap sampleRegistry) \<and>
   \<not> bsm_Has ''bob'' (backingMap sampleRegistry) \<and>
   \<not> bsm_Has ''carol'' (backingMap sampleRegistry) \<and>
   (of_nat (card (liveSenders sampleRegistry)) :: 64 word) = 1"
proof -
  have c: "counter sampleRegistry = 1" by code_simp
  have h: "bsm_Has ''alice'' (backingMap sampleRegistry)"
    "\<not> bsm_Has ''bob'' (backingMap sampleRegistry)"
    "\<not> bsm_Has ''carol'' (backingMap sampleRegistry)"
    by code_simp+
  have "counter sampleRegistry = of_nat (card (liveSenders sampleRegistry))"
    unfolding sampleRegistry_def
    using C8_counter_equals_number_of_senders by blast
  with c h show ?thesis by simp
qed

subsection \<open>C9: lazy creation under concurrency\<close>

text \<open>
  C9 is about several threads racing through \<open>getOrAddListForSender\<close>. The functions
  above are the code run by one thread at a time; interleavings of threads, the mutex
  and the concurrent index are outside this model, so C9 is not stated here.
\<close>

subsection \<open>C10: the cursor before the first reset\<close>

text \<open>
  C10: as long as the cursor is nil, \<open>copyBatchTo\<close> without reset copies nothing and
  returns 0, whatever the list holds; and the cursor is nil on every list built from an
  empty one by \<open>AddTx\<close>, \<open>RemoveTx\<close> and \<open>RemoveHighNonceTxs\<close>, since none of them
  sets it.
\<close>

theorem C10_unset_cursor_copies_nothing:
  "(copyBatchIndex l = None \<longrightarrow> copyBatchTo False d dh b l = Some (0, d, dh, l))
   \<and> copyBatchIndex (runOps ops (newTxListForSender s)) = None"
proof -
  have "copyBatchIndex (runOps ops (newTxListForSender s)) = copyBatchIndex (newTxListForSender s)"
    by (rule cursor_runOps [OF wellFormed_new sorted_new])
  then show ?thesis
    by (simp add: copyBatchTo_def newTxListForSender_def)
qed

theorem C10_witness:
  "length (items sampleList) = 3 \<and> copyBatchIndex sampleList = None \<and>
   copyBatchTo False (replicate 2 (sampleTx 9 0)) (replicate 2 None) 2 sampleList
     = Some (0, replicate 2 (sampleTx 9 0), replicate 2 None, sampleList)"
proof -
  have n: "length (items sampleList) = 3" by code_simp
  have c: "copyBatchIndex sampleList = None" by code_simp
  show ?thesis
    using C10_unset_cursor_copies_nothing [of sampleList "replicate 2 (sampleTx 9 0)" "replicate 2 None" 2] n c
    by simp
qed

end
